theory Spec2Isabelle
  imports Main "HOL-Library.Word"
begin

unbundle bit_operations_syntax

section \<open>JavaScript strings and byte arrays\<close>

text \<open>
  A JavaScript string is a sequence of UTF-16 code units; a \<^verbatim>\<open>Uint8Array\<close> is a sequence
  of bytes. String literals of the source are written with \<open>js\<close>; \<open>ascii\<close> gives the bytes
  of an ASCII text.
\<close>

type_synonym byte = "8 word"
type_synonym jsstring = "16 word list"

definition js :: "string \<Rightarrow> jsstring" where
  "js s = map of_char s"

definition ascii :: "string \<Rightarrow> byte list" where
  "ascii s = map of_char s"

text \<open>
  The characters that \<^verbatim>\<open>\s\<close> matches and \<^verbatim>\<open>String.prototype.trim\<close> strips (ECMAScript
  WhiteSpace and LineTerminator): TAB, LF, VT, FF, CR, SP, NBSP, the Unicode space
  separators, LS, PS and U+FEFF.
\<close>

definition is_ws :: "16 word \<Rightarrow> bool" where
  "is_ws c = (c = 0x9 \<or> c = 0xA \<or> c = 0xB \<or> c = 0xC \<or> c = 0xD \<or> c = 0x20 \<or> c = 0xA0
     \<or> c = 0x1680 \<or> (0x2000 \<le> c \<and> c \<le> 0x200A) \<or> c = 0x2028 \<or> c = 0x2029
     \<or> c = 0x202F \<or> c = 0x205F \<or> c = 0x3000 \<or> c = 0xFEFF)"

definition trim :: "jsstring \<Rightarrow> jsstring" where
  "trim s = rev (dropWhile is_ws (rev (dropWhile is_ws s)))"

section \<open>\<^verbatim>\<open>new TextDecoder().decode(value)\<close>\<close>

text \<open>
  The UTF-8 decoder of the Encoding standard, in replacement mode. \<open>utf8_handler\<close> is the
  decoder's handler for one byte: it returns the code points emitted and the next state
  (a code point is below \<open>0x110000\<close>, and is held in 32 bits).
  A byte outside the expected continuation range emits U+FFFD and is processed again from
  the reset state. \<open>utf8_run\<close> feeds a byte sequence and then the end of the queue, where a
  pending sequence emits U+FFFD: \<^verbatim>\<open>decode\<close> is called without \<^verbatim>\<open>{stream: true}\<close>, on a decoder
  made for this one call.
\<close>

record utf8_decoder =
  code_point :: "32 word"
  bytes_seen :: nat
  bytes_needed :: nat
  lower_boundary :: byte
  upper_boundary :: byte

definition utf8_init :: utf8_decoder where
  "utf8_init = \<lparr>code_point = 0, bytes_seen = 0, bytes_needed = 0,
     lower_boundary = 0x80, upper_boundary = 0xBF\<rparr>"

definition utf8_lead :: "utf8_decoder \<Rightarrow> byte \<Rightarrow> 32 word list \<times> utf8_decoder" where
  "utf8_lead d b =
    (if b \<le> 0x7F then ([ucast b], d)
     else if 0xC2 \<le> b \<and> b \<le> 0xDF then
       ([], d\<lparr>bytes_needed := 1, code_point := ucast (b AND 0x1F)\<rparr>)
     else if 0xE0 \<le> b \<and> b \<le> 0xEF then
       ([], d\<lparr>lower_boundary := (if b = 0xE0 then 0xA0 else lower_boundary d),
             upper_boundary := (if b = 0xED then 0x9F else upper_boundary d),
             bytes_needed := 2, code_point := ucast (b AND 0xF)\<rparr>)
     else if 0xF0 \<le> b \<and> b \<le> 0xF4 then
       ([], d\<lparr>lower_boundary := (if b = 0xF0 then 0x90 else lower_boundary d),
             upper_boundary := (if b = 0xF4 then 0x8F else upper_boundary d),
             bytes_needed := 3, code_point := ucast (b AND 0x7)\<rparr>)
     else ([0xFFFD], d))"

definition utf8_handler :: "utf8_decoder \<Rightarrow> byte \<Rightarrow> 32 word list \<times> utf8_decoder" where
  "utf8_handler d b =
    (if bytes_needed d = 0 then utf8_lead d b
     else if b < lower_boundary d \<or> upper_boundary d < b then
       (let (out, d') = utf8_lead utf8_init b in (0xFFFD # out, d'))
     else
       (let cp = push_bit 6 (code_point d) OR ucast (b AND 0x3F) in
        if Suc (bytes_seen d) \<noteq> bytes_needed d then
          ([], d\<lparr>lower_boundary := 0x80, upper_boundary := 0xBF, code_point := cp,
                bytes_seen := Suc (bytes_seen d)\<rparr>)
        else ([cp], utf8_init)))"

fun utf8_run :: "utf8_decoder \<Rightarrow> byte list \<Rightarrow> 32 word list" where
  "utf8_run d [] = (if bytes_needed d \<noteq> 0 then [0xFFFD] else [])"
| "utf8_run d (b # bs) = (let (out, d') = utf8_handler d b in out @ utf8_run d' bs)"

text \<open>
  The decoder object is new (\<^verbatim>\<open>ignoreBOM\<close> false, no BOM seen), so a leading U+FEFF of the
  output is dropped. The scalar values are then written as UTF-16 code units.
\<close>

definition drop_bom :: "32 word list \<Rightarrow> 32 word list" where
  "drop_bom cps = (case cps of [] \<Rightarrow> [] | c # cs \<Rightarrow> if c = 0xFEFF then cs else cps)"

definition utf16 :: "32 word \<Rightarrow> jsstring" where
  "utf16 cp =
    (if cp < 0x10000 then [ucast cp]
     else [ucast (0xD800 + drop_bit 10 (cp - 0x10000)),
           ucast (0xDC00 + ((cp - 0x10000) AND 0x3FF))])"

definition TextDecoder_decode :: "byte list \<Rightarrow> jsstring" where
  "TextDecoder_decode value = concat (map utf16 (drop_bom (utf8_run utf8_init value)))"

section \<open>Regular expressions\<close>

text \<open>
  The regular expressions of the source, \<^verbatim>\<open>/(\n){2}/\<close>, \<^verbatim>\<open>/(\n)?^data:\s*/\<close> and the
  pattern that normalises a leading backtick, use pattern characters, \<^verbatim>\<open>\s\<close>, the
  assertion \<^verbatim>\<open>^\<close>, one capture group and the greedy quantifiers \<^verbatim>\<open>?\<close>, \<^verbatim>\<open>*\<close> and
  \<^verbatim>\<open>{n}\<close>. None has a flag, so \<^verbatim>\<open>^\<close> holds at index 0 of the input only.

  A match state is the end index reached, the input that remains, and the value of capture
  group 1. \<open>rmatch r x\<close> lists the states in which \<open>r\<close> can end from \<open>x\<close>, in the order the
  backtracking matcher of ECMAScript tries them; the first is the one taken. As there,
  a quantifier clears the captures of its atom before each iteration, and an iteration of
  \<^verbatim>\<open>?\<close> or \<^verbatim>\<open>*\<close> that consumes nothing is rejected.
\<close>

datatype regex =
    Chr "16 word"
  | Space
  | Bol
  | Seq regex regex
  | Group regex
  | Opt regex
  | Star regex
  | Times nat regex

type_synonym mstate = "nat \<times> jsstring \<times> jsstring option"

fun has_group :: "regex \<Rightarrow> bool" where
  "has_group (Chr c) = False"
| "has_group Space = False"
| "has_group Bol = False"
| "has_group (Seq a b) = (has_group a \<or> has_group b)"
| "has_group (Group a) = True"
| "has_group (Opt a) = has_group a"
| "has_group (Star a) = has_group a"
| "has_group (Times n a) = has_group a"

definition clear_captures :: "regex \<Rightarrow> mstate \<Rightarrow> mstate" where
  "clear_captures a x = (if has_group a then (fst x, fst (snd x), None) else x)"

fun star_loop :: "(mstate \<Rightarrow> mstate list) \<Rightarrow> nat \<Rightarrow> mstate \<Rightarrow> mstate list" where
  "star_loop m 0 x = [x]"
| "star_loop m (Suc n) x =
     concat (map (star_loop m n) (filter (\<lambda>y. fst y \<noteq> fst x) (m x))) @ [x]"

fun times_loop :: "(mstate \<Rightarrow> mstate list) \<Rightarrow> nat \<Rightarrow> mstate \<Rightarrow> mstate list" where
  "times_loop m 0 x = [x]"
| "times_loop m (Suc n) x = concat (map (times_loop m n) (m x))"

fun rmatch :: "regex \<Rightarrow> mstate \<Rightarrow> mstate list" where
  "rmatch (Chr c) (e, s, g) =
     (case s of [] \<Rightarrow> [] | x # xs \<Rightarrow> if x = c then [(Suc e, xs, g)] else [])"
| "rmatch Space (e, s, g) =
     (case s of [] \<Rightarrow> [] | x # xs \<Rightarrow> if is_ws x then [(Suc e, xs, g)] else [])"
| "rmatch Bol (e, s, g) = (if e = 0 then [(e, s, g)] else [])"
| "rmatch (Seq a b) x = concat (map (rmatch b) (rmatch a x))"
| "rmatch (Group a) (e, s, g) =
     map (\<lambda>(e', s', g'). (e', s', Some (take (e' - e) s))) (rmatch a (e, s, g))"
| "rmatch (Opt a) x =
     filter (\<lambda>y. fst y \<noteq> fst x) (rmatch a (clear_captures a x)) @ [x]"
| "rmatch (Star a) (e, s, g) =
     star_loop (\<lambda>y. rmatch a (clear_captures a y)) (length s) (e, s, g)"
| "rmatch (Times n a) x = times_loop (\<lambda>y. rmatch a (clear_captures a y)) n x"

text \<open>
  \<open>search\<close> is the match attempt of \<^verbatim>\<open>RegExp.prototype.exec\<close> for a pattern without the
  \<^verbatim>\<open>g\<close> and \<^verbatim>\<open>y\<close> flags: from index 0 upwards, the first index with a match. It returns
  the start index and the final state. \<open>js_replace\<close> is \<^verbatim>\<open>String.prototype.replace\<close> for such
  a pattern and a replacement text without \<^verbatim>\<open>$\<close>: the first match is replaced.
\<close>

fun search :: "regex \<Rightarrow> nat \<Rightarrow> jsstring \<Rightarrow> (nat \<times> mstate) option" where
  "search r i s =
    (case rmatch r (i, s, None) of
       y # ys \<Rightarrow> Some (i, y)
     | [] \<Rightarrow> (case s of [] \<Rightarrow> None | c # s' \<Rightarrow> search r (Suc i) s'))"

declare search.simps [simp del]

definition js_replace :: "regex \<Rightarrow> jsstring \<Rightarrow> jsstring \<Rightarrow> jsstring" where
  "js_replace r s replacement =
    (case search r 0 s of
       None \<Rightarrow> s
     | Some (i, (e, rest, g)) \<Rightarrow> take i s @ replacement @ drop e s)"

text \<open>
  \<open>js_split\<close> is \<^verbatim>\<open>String.prototype.split\<close> with a regular expression and no limit
  (\<^verbatim>\<open>RegExp.prototype[Symbol.split]\<close>): \<open>p\<close> is the end of the last separator, \<open>q\<close> the
  index tried. A match at \<open>q\<close> that ends at \<open>p\<close> is skipped; any other match closes the piece
  \<open>S[p..q)\<close> and is followed in the result by the value of the capture group, \<^verbatim>\<open>undefined\<close>
  (\<open>None\<close>) if the group took no part in the match.
\<close>

lemma star_loop_mono:
  assumes "\<And>x y. y \<in> set (m x) \<Longrightarrow> fst x \<le> fst y"
  shows "y \<in> set (star_loop m n x) \<Longrightarrow> fst x \<le> fst y"
proof (induction n arbitrary: x y)
  case 0
  then show ?case by simp
next
  case (Suc n)
  from Suc.prems consider "y = x" | z where "z \<in> set (m x)" "y \<in> set (star_loop m n z)"
    by auto
  then show ?case
  proof cases
    case 1
    then show ?thesis by simp
  next
    case 2
    from assms [OF 2(1)] Suc.IH [OF 2(2)] show ?thesis by simp
  qed
qed

lemma times_loop_mono:
  assumes "\<And>x y. y \<in> set (m x) \<Longrightarrow> fst x \<le> fst y"
  shows "y \<in> set (times_loop m n x) \<Longrightarrow> fst x \<le> fst y"
proof (induction n arbitrary: x y)
  case 0
  then show ?case by simp
next
  case (Suc n)
  from Suc.prems obtain z where z: "z \<in> set (m x)" "y \<in> set (times_loop m n z)"
    by auto
  from assms [OF z(1)] Suc.IH [OF z(2)] show ?case by simp
qed

lemma fst_clear_captures: "fst (clear_captures a x) = fst x"
  by (simp add: clear_captures_def)

lemma rmatch_mono: "y \<in> set (rmatch r x) \<Longrightarrow> fst x \<le> fst y"
proof (induction r arbitrary: x y)
  case (Chr c)
  then show ?case by (cases x) (auto split: list.splits if_splits)
next
  case Space
  then show ?case by (cases x) (auto split: list.splits if_splits)
next
  case Bol
  then show ?case by (cases x) (auto split: if_splits)
next
  case (Seq a b)
  from Seq.prems obtain z where "z \<in> set (rmatch a x)" "y \<in> set (rmatch b z)"
    by auto
  with Seq.IH show ?case by (meson le_trans)
next
  case (Group a)
  then show ?case by (cases x) fastforce
next
  case (Opt a)
  from Opt.prems have "y = x \<or> y \<in> set (rmatch a (clear_captures a x))"
    by auto
  with Opt.IH [of y "clear_captures a x"] show ?case
    by (auto simp: fst_clear_captures)
next
  case (Star a)
  obtain e s g where x: "x = (e, s, g)" by (cases x)
  have "\<And>u v. v \<in> set (rmatch a (clear_captures a u)) \<Longrightarrow> fst u \<le> fst v"
    using Star.IH by (metis fst_clear_captures)
  moreover have "y \<in> set (star_loop (\<lambda>y. rmatch a (clear_captures a y)) (length s) x)"
    using Star.prems x by simp
  ultimately show ?case by (rule star_loop_mono)
next
  case (Times n a)
  have "\<And>u v. v \<in> set (rmatch a (clear_captures a u)) \<Longrightarrow> fst u \<le> fst v"
    using Times.IH by (metis fst_clear_captures)
  moreover have "y \<in> set (times_loop (\<lambda>y. rmatch a (clear_captures a y)) n x)"
    using Times.prems by simp
  ultimately show ?case by (rule times_loop_mono)
qed

function split_loop :: "regex \<Rightarrow> jsstring \<Rightarrow> nat \<Rightarrow> nat \<Rightarrow> jsstring option list" where
  "split_loop r S p q =
    (if q < length S then
       (case rmatch r (q, drop q S, None) of
          [] \<Rightarrow> split_loop r S p (Suc q)
        | (e', rest, g) # ys \<Rightarrow>
            (let e = min e' (length S) in
             if e = p then split_loop r S p (Suc q)
             else Some (take (q - p) (drop p S)) # (if has_group r then [g] else [])
                    @ split_loop r S e e))
     else [Some (drop p S)])"
  by pat_completeness auto
termination
proof (relation "measure (\<lambda>(r, S, p, q). 2 * (length S - q) + (if p = q then 0 else 1))",
    goal_cases)
  case 1
  then show ?case by simp
next
  case (2 r S p q)
  then show ?case by auto
next
  case (3 r S p q x xs e' rest' rest g e)
  then show ?case by auto
next
  case (4 r S p q x xs e' rest' rest g e)
  then have "(e', rest, g) \<in> set (rmatch r (q, drop q S, None))"
    by simp
  from rmatch_mono [OF this] have "q \<le> e'" by simp
  with 4 show ?case by (auto simp: min_def split: if_splits)
qed

declare split_loop.simps [simp del]

definition js_split :: "regex \<Rightarrow> jsstring \<Rightarrow> jsstring option list" where
  "js_split r S =
    (if S = [] then (if rmatch r (0, [], None) = [] then [Some []] else [])
     else split_loop r S 0 0)"

section \<open>JavaScript values and \<^verbatim>\<open>JSON.parse\<close>\<close>

text \<open>
  The values that JSON text denotes, and \<^verbatim>\<open>undefined\<close>. A Number is carried as the decimal
  text that JavaScript prints for it. An object is the list of its own properties in
  property order: array indices ascending, then the other keys in order of creation.
\<close>

datatype jsval =
    Undefined
  | JNull
  | JBool bool
  | JNumber jsstring
  | JString jsstring
  | JArray "jsval list"
  | JObject "(jsstring \<times> jsval) list"

datatype error =
    JsError jsstring
  | SyntaxError
  | TypeError
  | Rejected jsstring

definition is_digit :: "16 word \<Rightarrow> bool" where
  "is_digit c = (0x30 \<le> c \<and> c \<le> 0x39)"

definition decimal_value :: "jsstring \<Rightarrow> int" where
  "decimal_value ds = foldl (\<lambda>n c. 10 * n + (uint c - 0x30)) 0 ds"

text \<open>An array index: the canonical decimal text of an integer below \<open>2^32 - 1\<close>.\<close>

definition array_index :: "jsstring \<Rightarrow> nat option" where
  "array_index k =
    (if k \<noteq> [] \<and> list_all is_digit k \<and> (hd k \<noteq> 0x30 \<or> length k = 1)
        \<and> decimal_value k < 2 ^ 32 - 1
     then Some (nat (decimal_value k)) else None)"

fun insert_index :: "nat \<Rightarrow> jsstring \<times> jsval \<Rightarrow> (jsstring \<times> jsval) list
    \<Rightarrow> (jsstring \<times> jsval) list" where
  "insert_index i kv [] = [kv]"
| "insert_index i kv (p # ps) =
    (case array_index (fst p) of
       None \<Rightarrow> kv # p # ps
     | Some j \<Rightarrow> if i < j then kv # p # ps else p # insert_index i kv ps)"

text \<open>\<open>obj_put\<close> defines or overwrites one data property (\<^verbatim>\<open>CreateDataProperty\<close>).\<close>

definition obj_put :: "(jsstring \<times> jsval) list \<Rightarrow> jsstring \<Rightarrow> jsval \<Rightarrow> (jsstring \<times> jsval) list" where
  "obj_put ps k v =
    (if k \<in> fst ` set ps then map (\<lambda>p. if fst p = k then (k, v) else p) ps
     else (case array_index k of
             None \<Rightarrow> ps @ [(k, v)]
           | Some i \<Rightarrow> insert_index i (k, v) ps))"

subsection \<open>Tokens\<close>

datatype token =
    LBrace | RBrace | LBracket | RBracket | Colon | Comma
  | TString jsstring
  | TNumber jsstring
  | TTrue | TFalse | TNull

definition json_ws :: "16 word \<Rightarrow> bool" where
  "json_ws c = (c = 0x20 \<or> c = 0x9 \<or> c = 0xA \<or> c = 0xD)"

definition hex_digit :: "16 word \<Rightarrow> nat option" where
  "hex_digit c =
    (if 0x30 \<le> c \<and> c \<le> 0x39 then Some (unat c - 0x30)
     else if 0x41 \<le> c \<and> c \<le> 0x46 then Some (unat c - 0x37)
     else if 0x61 \<le> c \<and> c \<le> 0x66 then Some (unat c - 0x57)
     else None)"

definition hex4 :: "16 word \<Rightarrow> 16 word \<Rightarrow> 16 word \<Rightarrow> 16 word \<Rightarrow> 16 word option" where
  "hex4 a b c d =
    (case (hex_digit a, hex_digit b, hex_digit c, hex_digit d) of
       (Some x, Some y, Some z, Some w) \<Rightarrow> Some (of_nat (((x * 16 + y) * 16 + z) * 16 + w))
     | _ \<Rightarrow> None)"

text \<open>
  The characters of a string after its opening quote, up to the closing quote. The first
  argument collects the value in reverse. A control character, an unknown escape and the
  end of the text are errors.
\<close>

definition escape :: "16 word \<Rightarrow> 16 word option" where
  "escape e =
    (if e = 0x22 then Some 0x22
     else if e = 0x5C then Some 0x5C
     else if e = 0x2F then Some 0x2F
     else if e = 0x62 then Some 0x8
     else if e = 0x66 then Some 0xC
     else if e = 0x6E then Some 0xA
     else if e = 0x72 then Some 0xD
     else if e = 0x74 then Some 0x9
     else None)"

fun lex_string :: "jsstring \<Rightarrow> jsstring \<Rightarrow> (jsstring \<times> jsstring) option" where
  "lex_string acc [] = None"
| "lex_string acc (c # cs) =
    (if c = 0x22 then Some (rev acc, cs)
     else if c = 0x5C then
       (case cs of
          [] \<Rightarrow> None
        | e # cs' \<Rightarrow>
            if e = 0x75 then
              (case cs' of
                 h1 # h2 # h3 # h4 # cs'' \<Rightarrow>
                   (case hex4 h1 h2 h3 h4 of
                      None \<Rightarrow> None
                    | Some u \<Rightarrow> lex_string (u # acc) cs'')
               | _ \<Rightarrow> None)
            else
              (case escape e of
                 None \<Rightarrow> None
               | Some x \<Rightarrow> lex_string (x # acc) cs'))
     else if c < 0x20 then None
     else lex_string (c # acc) cs)"

text \<open>
  A number: an optional minus, \<open>0\<close> or a digit sequence without a leading zero, an optional
  fraction and an optional exponent, each with at least one digit. The result is the
  literal's text and the rest of the input.
\<close>

definition lex_exponent :: "jsstring \<Rightarrow> (jsstring \<times> jsstring) option" where
  "lex_exponent s =
    (case s of
       [] \<Rightarrow> Some ([], s)
     | c # r \<Rightarrow>
         if c = 0x65 \<or> c = 0x45 then
           (let (sign, r') = (case r of
                                [] \<Rightarrow> ([], r)
                              | d # r'' \<Rightarrow> if d = 0x2B \<or> d = 0x2D then ([d], r'') else ([], r))
            in if takeWhile is_digit r' = [] then None
               else Some (c # sign @ takeWhile is_digit r', dropWhile is_digit r'))
         else Some ([], s))"

definition lex_fraction :: "jsstring \<Rightarrow> (jsstring \<times> jsstring) option" where
  "lex_fraction s =
    (case s of
       [] \<Rightarrow> Some ([], s)
     | c # r \<Rightarrow>
         if c = 0x2E then
           (if takeWhile is_digit r = [] then None
            else Some (c # takeWhile is_digit r, dropWhile is_digit r))
         else Some ([], s))"

definition lex_integer :: "jsstring \<Rightarrow> (jsstring \<times> jsstring) option" where
  "lex_integer s =
    (case s of
       [] \<Rightarrow> None
     | c # r \<Rightarrow>
         if c = 0x30 then Some ([c], r)
         else if is_digit c then Some (takeWhile is_digit s, dropWhile is_digit s)
         else None)"

definition lex_number :: "jsstring \<Rightarrow> (jsstring \<times> jsstring) option" where
  "lex_number s =
    (let (sign, s1) = (case s of
                         [] \<Rightarrow> ([], s)
                       | c # r \<Rightarrow> if c = 0x2D then ([c], r) else ([], s))
     in case lex_integer s1 of
          None \<Rightarrow> None
        | Some (i, s2) \<Rightarrow>
            (case lex_fraction s2 of
               None \<Rightarrow> None
             | Some (f, s3) \<Rightarrow>
                 (case lex_exponent s3 of
                    None \<Rightarrow> None
                  | Some (x, s4) \<Rightarrow> Some (sign @ i @ f @ x, s4))))"

lemma lex_string_shorter: "lex_string acc s = Some (v, rest) \<Longrightarrow> length rest < length s"
proof (induction s arbitrary: acc rule: length_induct)
  case (1 s)
  have IH: "lex_string a t = Some (v, rest) \<Longrightarrow> length t < length s \<Longrightarrow> length rest < length t"
    for a t using 1(1) by blast
  from 1(2) obtain c cs where s: "s = c # cs"
    by (cases s) auto
  consider (quote) "c = 0x22" | (esc) "c \<noteq> 0x22" "c = 0x5C" | (plain) "c \<noteq> 0x22" "c \<noteq> 0x5C"
    by blast
  then show ?case
  proof cases
    case quote
    with 1(2) s show ?thesis by simp
  next
    case plain
    with 1(2) s have "lex_string (c # acc) cs = Some (v, rest)"
      by (simp split: if_splits)
    from IH [OF this] s show ?thesis by simp
  next
    case esc
    with 1(2) s obtain e cs' where cs: "cs = e # cs'"
      by (cases cs) auto
    show ?thesis
    proof (cases "e = 0x75")
      case True
      with 1(2) s esc cs obtain h1 h2 h3 h4 cs'' u
        where h: "cs' = h1 # h2 # h3 # h4 # cs''" "lex_string (u # acc) cs'' = Some (v, rest)"
        by (auto split: list.splits option.splits)
      from IH [OF h(2)] h(1) s cs show ?thesis by simp
    next
      case False
      with 1(2) s esc cs obtain x where "lex_string (x # acc) cs' = Some (v, rest)"
        by (auto split: option.splits)
      from IH [OF this] s cs show ?thesis by simp
    qed
  qed
qed

lemma lex_number_shorter: "lex_number s = Some (l, rest) \<Longrightarrow> length rest < length s"
proof -
  have d: "length (dropWhile is_digit xs) \<le> length xs" for xs
    by (rule length_dropWhile_le)
  have i: "lex_integer t = Some (x, r) \<Longrightarrow> length r < length t" for t x r
    using d by (auto simp: lex_integer_def le_imp_less_Suc split: list.splits if_splits)
  have f: "lex_fraction t = Some (x, r) \<Longrightarrow> length r \<le> length t" for t x r
    using d by (auto simp: lex_fraction_def le_SucI split: list.splits if_splits)
  have e: "lex_exponent t = Some (x, r) \<Longrightarrow> length r \<le> length t" for t x r
    using d by (auto simp: lex_exponent_def Let_def le_SucI split: list.splits if_splits)
  assume a: "lex_number s = Some (l, rest)"
  obtain sg s1
    where sg: "(case s of [] \<Rightarrow> ([], s) | c # r \<Rightarrow> if c = 0x2D then ([c], r) else ([], s)) = (sg, s1)"
    by fastforce
  then have s1: "length s1 \<le> length s"
    by (auto split: list.splits if_splits)
  from a sg obtain x1 s2 x2 s3 x3
    where p: "lex_integer s1 = Some (x1, s2)" "lex_fraction s2 = Some (x2, s3)"
      "lex_exponent s3 = Some (x3, rest)"
    by (auto simp: lex_number_def split: option.splits)
  from i [OF p(1)] f [OF p(2)] e [OF p(3)] s1 show ?thesis by linarith
qed

function lex :: "(jsstring \<Rightarrow> jsstring) \<Rightarrow> jsstring \<Rightarrow> token list option" where
  "lex nt [] = Some []"
| "lex nt (c # cs) =
    (if json_ws c then lex nt cs
     else if c = 0x7B then map_option ((#) LBrace) (lex nt cs)
     else if c = 0x7D then map_option ((#) RBrace) (lex nt cs)
     else if c = 0x5B then map_option ((#) LBracket) (lex nt cs)
     else if c = 0x5D then map_option ((#) RBracket) (lex nt cs)
     else if c = 0x3A then map_option ((#) Colon) (lex nt cs)
     else if c = 0x2C then map_option ((#) Comma) (lex nt cs)
     else if c = 0x22 then
       (case lex_string [] cs of
          None \<Rightarrow> None
        | Some (v, rest) \<Rightarrow> map_option ((#) (TString v)) (lex nt rest))
     else if c = 0x2D \<or> is_digit c then
       (case lex_number (c # cs) of
          None \<Rightarrow> None
        | Some (l, rest) \<Rightarrow> map_option ((#) (TNumber (nt l))) (lex nt rest))
     else if take 4 (c # cs) = js ''true'' then map_option ((#) TTrue) (lex nt (drop 3 cs))
     else if take 5 (c # cs) = js ''false'' then map_option ((#) TFalse) (lex nt (drop 4 cs))
     else if take 4 (c # cs) = js ''null'' then map_option ((#) TNull) (lex nt (drop 3 cs))
     else None)"
  by pat_completeness auto
termination
proof (relation "measure (\<lambda>(nt, s). length s)", goal_cases)
  case (9 nt c cs x2 x y)
  then show ?case using lex_string_shorter [of "[]" cs x y] by simp
next
  case (10 nt c cs x2 x y)
  then show ?case using lex_number_shorter [of "c # cs" x y] by simp
qed auto

declare lex.simps [simp del]

subsection \<open>The grammar\<close>

text \<open>
  The parser reads the tokens with a stack of the arrays and objects that are open:
  \<open>ArrayF\<close> holds an array's elements so far, \<open>ObjectF\<close> an object's properties so far and
  \<open>MemberF\<close> such an object together with the key whose value is being read. The mode
  says what may come next. A key that occurs twice keeps its last value.
\<close>

datatype frame =
    ArrayF "jsval list"
  | ObjectF "(jsstring \<times> jsval) list"
  | MemberF "(jsstring \<times> jsval) list" jsstring

datatype mode =
    MValue
  | MValueOrEnd
  | MKeyOrEnd
  | MKey
  | MColon
  | MNext
  | MEnd jsval

fun complete :: "jsval \<Rightarrow> frame list \<Rightarrow> (mode \<times> frame list) option" where
  "complete v [] = Some (MEnd v, [])"
| "complete v (ArrayF xs # st) = Some (MNext, ArrayF (xs @ [v]) # st)"
| "complete v (MemberF ps k # st) = Some (MNext, ObjectF (obj_put ps k v) # st)"
| "complete v (ObjectF ps # st) = None"

definition parse_value :: "frame list \<Rightarrow> token \<Rightarrow> (mode \<times> frame list) option" where
  "parse_value st t =
    (case t of
       TString v \<Rightarrow> complete (JString v) st
     | TNumber n \<Rightarrow> complete (JNumber n) st
     | TTrue \<Rightarrow> complete (JBool True) st
     | TFalse \<Rightarrow> complete (JBool False) st
     | TNull \<Rightarrow> complete JNull st
     | LBrace \<Rightarrow> Some (MKeyOrEnd, ObjectF [] # st)
     | LBracket \<Rightarrow> Some (MValueOrEnd, ArrayF [] # st)
     | _ \<Rightarrow> None)"

definition parse_key :: "frame list \<Rightarrow> token \<Rightarrow> (mode \<times> frame list) option" where
  "parse_key st t =
    (case (t, st) of
       (TString k, ObjectF ps # st') \<Rightarrow> Some (MColon, MemberF ps k # st')
     | _ \<Rightarrow> None)"

definition parse_close :: "frame list \<Rightarrow> token \<Rightarrow> (mode \<times> frame list) option" where
  "parse_close st t =
    (case (t, st) of
       (RBracket, ArrayF xs # st') \<Rightarrow> complete (JArray xs) st'
     | (RBrace, ObjectF ps # st') \<Rightarrow> complete (JObject ps) st'
     | _ \<Rightarrow> None)"

definition parse_step :: "mode \<Rightarrow> frame list \<Rightarrow> token \<Rightarrow> (mode \<times> frame list) option" where
  "parse_step m st t =
    (case m of
       MValue \<Rightarrow> parse_value st t
     | MValueOrEnd \<Rightarrow> (if t = RBracket then parse_close st t else parse_value st t)
     | MKeyOrEnd \<Rightarrow> (if t = RBrace then parse_close st t else parse_key st t)
     | MKey \<Rightarrow> parse_key st t
     | MColon \<Rightarrow> (if t = Colon then Some (MValue, st) else None)
     | MNext \<Rightarrow>
         (if t = Comma then
            (case st of
               ArrayF xs # st' \<Rightarrow> Some (MValue, st)
             | ObjectF ps # st' \<Rightarrow> Some (MKey, st)
             | _ \<Rightarrow> None)
          else parse_close st t)
     | MEnd v \<Rightarrow> None)"

fun parse_tokens :: "mode \<Rightarrow> frame list \<Rightarrow> token list \<Rightarrow> jsval option" where
  "parse_tokens m st [] = (case m of MEnd v \<Rightarrow> Some v | _ \<Rightarrow> None)"
| "parse_tokens m st (t # ts) =
    (case parse_step m st t of
       None \<Rightarrow> None
     | Some (m', st') \<Rightarrow> parse_tokens m' st' ts)"

text \<open>
  \<^verbatim>\<open>JSON.parse(text)\<close>: the value, or \<open>None\<close> where JavaScript throws a \<^verbatim>\<open>SyntaxError\<close>.
  The conversion of a numeric literal to the Number it denotes is IEEE 754 rounding, which
  is not modelled: the parameter \<open>nt\<close> stands for the function from a literal to the
  decimal text of its Number, and every statement holds for each such function.
\<close>

definition JSON_parse :: "(jsstring \<Rightarrow> jsstring) \<Rightarrow> jsstring \<Rightarrow> jsval option" where
  "JSON_parse nt text =
    (case lex nt text of
       None \<Rightarrow> None
     | Some ts \<Rightarrow> parse_tokens MValue [] ts)"

subsection \<open>Reading properties and converting to strings\<close>

fun decimal :: "nat \<Rightarrow> jsstring" where
  "decimal n = (if n < 10 then [of_nat (0x30 + n)]
                else decimal (n div 10) @ [of_nat (0x30 + n mod 10)])"

text \<open>
  \<open>js_get v k\<close> is the property read \<^verbatim>\<open>v[k]\<close>, for a key \<open>k\<close> that no built-in prototype
  defines; the decoder reads \<^verbatim>\<open>choices\<close>, \<^verbatim>\<open>0\<close>, \<^verbatim>\<open>delta\<close>, \<^verbatim>\<open>content\<close> and \<^verbatim>\<open>role\<close>.
  Reading a property of \<^verbatim>\<open>undefined\<close> or \<^verbatim>\<open>null\<close> throws a \<^verbatim>\<open>TypeError\<close>; a property that
  is absent reads as \<^verbatim>\<open>undefined\<close>.
\<close>

fun js_get :: "jsval \<Rightarrow> jsstring \<Rightarrow> error + jsval" where
  "js_get Undefined k = Inl TypeError"
| "js_get JNull k = Inl TypeError"
| "js_get (JBool b) k = Inr Undefined"
| "js_get (JNumber n) k = Inr Undefined"
| "js_get (JString s) k =
     Inr (case array_index k of
            Some i \<Rightarrow> if i < length s then JString [s ! i] else Undefined
          | None \<Rightarrow> if k = js ''length'' then JNumber (decimal (length s)) else Undefined)"
| "js_get (JArray xs) k =
     Inr (case array_index k of
            Some i \<Rightarrow> if i < length xs then xs ! i else Undefined
          | None \<Rightarrow> if k = js ''length'' then JNumber (decimal (length xs)) else Undefined)"
| "js_get (JObject ps) k = Inr (case map_of ps k of Some v \<Rightarrow> v | None \<Rightarrow> Undefined)"

text \<open>
  \<open>to_string\<close> is the conversion that \<^verbatim>\<open>+=\<close> on a string applies to its right operand. An
  array is joined with commas, \<^verbatim>\<open>undefined\<close> and \<^verbatim>\<open>null\<close> elements giving the empty text.
  An object gives \<^verbatim>\<open>[object Object]\<close>, unless it has a property \<^verbatim>\<open>toString\<close> of its own:
  that value is not callable, and the conversion throws a \<^verbatim>\<open>TypeError\<close>.
\<close>

fun join_comma :: "(error + jsstring) list \<Rightarrow> error + jsstring" where
  "join_comma [] = Inr []"
| "join_comma [x] = x"
| "join_comma (x # y # ys) =
    (case x of
       Inl e \<Rightarrow> Inl e
     | Inr s \<Rightarrow> (case join_comma (y # ys) of Inl e \<Rightarrow> Inl e | Inr t \<Rightarrow> Inr (s @ 0x2C # t)))"

fun to_string :: "jsval \<Rightarrow> error + jsstring" where
  "to_string Undefined = Inr (js ''undefined'')"
| "to_string JNull = Inr (js ''null'')"
| "to_string (JBool b) = Inr (if b then js ''true'' else js ''false'')"
| "to_string (JNumber n) = Inr n"
| "to_string (JString s) = Inr s"
| "to_string (JArray xs) =
     join_comma (map (\<lambda>x. if x = Undefined \<or> x = JNull then Inr [] else to_string x) xs)"
| "to_string (JObject ps) =
     (if js ''toString'' \<in> fst ` set ps then Inl TypeError else Inr (js ''[object Object]''))"

section \<open>The stream decoder\<close>

text \<open>The three regular expressions of \<^verbatim>\<open>openAiStreamingDataHandler\<close>.\<close>

fun chars :: "jsstring \<Rightarrow> regex \<Rightarrow> regex" where
  "chars [] r = r"
| "chars (c # cs) r = Seq (Chr c) (chars cs r)"

definition frame_boundary :: regex where
  "frame_boundary = Times 2 (Group (Chr 0xA))"

definition data_marker :: regex where
  "data_marker = Seq (Opt (Group (Chr 0xA))) (Seq Bol (chars (js ''data:'') (Star Space)))"

definition leading_backtick :: regex where
  "leading_backtick = Seq Bol (Seq (Chr 0x60) (Star Space))"

text \<open>
  The local variables of the read loop. The message returned at the end has the fields
  \<open>content\<close> and \<open>role\<close>.
\<close>

record OpenAIChatMessage =
  content :: jsstring
  role :: jsstring

record locals = OpenAIChatMessage +
  decodedData :: jsstring

text \<open>
  What the function does to its environment, in order: a call of \<^verbatim>\<open>reader.read()\<close>, a
  call of \<^verbatim>\<open>onIncomingChunk\<close> with its two arguments, a call of \<^verbatim>\<open>onCloseStream\<close> with its
  argument. The callbacks are taken to return normally. An asynchronous function ends by
  returning a value or by throwing; \<open>Pending\<close> is the run that waits for a read that never
  settles.
\<close>

datatype event =
    Read
  | OnIncomingChunk jsstring jsval
  | OnCloseStream nat

datatype 'a outcome =
    Returned 'a
  | Thrown error
  | Pending

definition nullish :: "jsval \<Rightarrow> jsval \<Rightarrow> jsval" where
  "nullish v d = (if v = Undefined \<or> v = JNull then d else v)"

definition delta_of :: "jsval \<Rightarrow> error + jsval" where
  "delta_of chunk =
    (case js_get chunk (js ''choices'') of
       Inl e \<Rightarrow> Inl e
     | Inr choices \<Rightarrow>
         (case js_get choices (js ''0'') of
            Inl e \<Rightarrow> Inl e
          | Inr choice \<Rightarrow> js_get choice (js ''delta'')))"

text \<open>
  \<^verbatim>\<open>(chunk.choices[0].delta.content ?? '').replace(...)\<close>: only a string has a method
  \<^verbatim>\<open>replace\<close>, so any other value that is not nullish throws a \<^verbatim>\<open>TypeError\<close>.
\<close>

definition contentChunk_of :: "jsval \<Rightarrow> error + jsstring" where
  "contentChunk_of chunk =
    (case delta_of chunk of
       Inl e \<Rightarrow> Inl e
     | Inr delta \<Rightarrow>
         (case js_get delta (js ''content'') of
            Inl e \<Rightarrow> Inl e
          | Inr c \<Rightarrow>
              (case nullish c (JString []) of
                 JString s \<Rightarrow> Inr (js_replace leading_backtick s [0x60])
               | _ \<Rightarrow> Inl TypeError)))"

definition roleChunk_of :: "jsval \<Rightarrow> error + jsval" where
  "roleChunk_of chunk =
    (case delta_of chunk of
       Inl e \<Rightarrow> Inl e
     | Inr delta \<Rightarrow>
         (case js_get delta (js ''role'') of
            Inl e \<Rightarrow> Inl e
          | Inr r \<Rightarrow> Inr (nullish r (JString []))))"

definition trimmedLine_of :: "jsstring \<Rightarrow> jsstring" where
  "trimmedLine_of line = trim (js_replace data_marker line [])"

text \<open>The body of the \<^verbatim>\<open>for\<close> loop, for one element of \<^verbatim>\<open>lines\<close>.\<close>

definition process_line :: "(jsstring \<Rightarrow> jsstring) \<Rightarrow> locals \<Rightarrow> jsstring option
    \<Rightarrow> event list \<times> (error + locals)" where
  "process_line nt st line =
    (case line of
       None \<Rightarrow> ([], Inl TypeError)
     | Some l \<Rightarrow>
         (let trimmedLine = trimmedLine_of l in
          if trimmedLine \<noteq> [] \<and> trimmedLine \<noteq> js ''[DONE]'' then
            (case JSON_parse nt trimmedLine of
               None \<Rightarrow> ([], Inl SyntaxError)
             | Some chunk \<Rightarrow>
                 (case contentChunk_of chunk of
                    Inl e \<Rightarrow> ([], Inl e)
                  | Inr contentChunk \<Rightarrow>
                      (case roleChunk_of chunk of
                         Inl e \<Rightarrow> ([], Inl e)
                       | Inr roleChunk \<Rightarrow>
                           (case to_string roleChunk of
                              Inl e \<Rightarrow> ([], Inl e)
                            | Inr r \<Rightarrow>
                                ([OnIncomingChunk contentChunk roleChunk],
                                 Inr (st\<lparr>content := content st @ contentChunk,
                                         role := role st @ r\<rparr>))))))
          else ([], Inr st)))"

fun for_lines :: "(jsstring \<Rightarrow> jsstring) \<Rightarrow> locals \<Rightarrow> jsstring option list
    \<Rightarrow> event list \<times> (error + locals)" where
  "for_lines nt st [] = ([], Inr st)"
| "for_lines nt st (l # ls) =
    (case process_line nt st l of
       (ev, Inl e) \<Rightarrow> (ev, Inl e)
     | (ev, Inr st') \<Rightarrow> (case for_lines nt st' ls of (ev', r) \<Rightarrow> (ev @ ev', r)))"

text \<open>
  \<^verbatim>\<open>decodedData = lines[numLines - 1]\<close>. Were the element \<^verbatim>\<open>undefined\<close>, the next
  \<^verbatim>\<open>decodedData += chunk\<close> would read it as the text \<^verbatim>\<open>undefined\<close>.
\<close>

definition last_line :: "jsstring option list \<Rightarrow> jsstring" where
  "last_line lines =
    (case lines of
       [] \<Rightarrow> js ''undefined''
     | l # ls \<Rightarrow> (case last lines of None \<Rightarrow> js ''undefined'' | Some t \<Rightarrow> t))"

text \<open>The body of \<^verbatim>\<open>if (value)\<close>: decode, append, split, process, keep the last piece.\<close>

definition on_value :: "(jsstring \<Rightarrow> jsstring) \<Rightarrow> locals \<Rightarrow> byte list
    \<Rightarrow> event list \<times> (error + locals)" where
  "on_value nt st value =
    (let chunk = TextDecoder_decode value;
         lines = js_split frame_boundary (decodedData st @ chunk);
         numLines = length lines
     in case for_lines nt (st\<lparr>decodedData := decodedData st @ chunk\<rparr>) (take (numLines - 1) lines) of
          (ev, Inl e) \<Rightarrow> (ev, Inl e)
        | (ev, Inr st') \<Rightarrow> (ev, Inr (st'\<lparr>decodedData := last_line lines\<rparr>)))"

text \<open>
  The byte source is the list of the results that the successive calls of
  \<^verbatim>\<open>reader.read()\<close> settle with: \<open>Resolves value done\<close>, where \<open>value\<close> is \<open>None\<close> for
  \<^verbatim>\<open>undefined\<close>, or a rejection. After the last listed result no read settles.
\<close>

datatype read_result =
    Resolves "byte list option" bool
  | Rejects jsstring

fun read_loop :: "(jsstring \<Rightarrow> jsstring) \<Rightarrow> locals \<Rightarrow> read_result list
    \<Rightarrow> event list \<times> locals outcome" where
  "read_loop nt st [] = ([Read], Pending)"
| "read_loop nt st (Rejects reason # rs) = ([Read], Thrown (Rejected reason))"
| "read_loop nt st (Resolves value done # rs) =
    (case (case value of None \<Rightarrow> ([], Inr st) | Some v \<Rightarrow> on_value nt st v) of
       (ev, Inl e) \<Rightarrow> (Read # ev, Thrown e)
     | (ev, Inr st') \<Rightarrow>
         if done then (Read # ev, Returned st')
         else (case read_loop nt st' rs of (ev', r) \<Rightarrow> (Read # ev @ ev', r)))"

text \<open>
  The response of \<^verbatim>\<open>fetch\<close>: \<^verbatim>\<open>response.ok\<close> is true for a status from 200 to 299, and
  \<^verbatim>\<open>response.body\<close> is \<^verbatim>\<open>null\<close> (\<open>None\<close>) or a stream, given by what its reader yields.
\<close>

record response =
  status :: nat
  statusText :: jsstring
  body :: "read_result list option"

datatype fetch_result =
    Fulfilled response
  | FetchRejected jsstring

definition ok :: "response \<Rightarrow> bool" where
  "ok r = (200 \<le> status r \<and> status r \<le> 299)"

text \<open>
  \<open>beforeTimestamp\<close> is the value of \<^verbatim>\<open>Date.now()\<close> read before the request, \<open>fetched\<close> what
  \<^verbatim>\<open>fetch(CHAT_COMPLETIONS_URL, requestOpts)\<close> settles with. The result is the list of
  effects, in order, and how the call ends.
\<close>

definition openAiStreamingDataHandler :: "(jsstring \<Rightarrow> jsstring) \<Rightarrow> nat \<Rightarrow> fetch_result
    \<Rightarrow> event list \<times> OpenAIChatMessage outcome" where
  "openAiStreamingDataHandler nt beforeTimestamp fetched =
    (case fetched of
       FetchRejected reason \<Rightarrow> ([], Thrown (Rejected reason))
     | Fulfilled response \<Rightarrow>
         if \<not> ok response then
           ([], Thrown (JsError (js ''Network response was not ok: '' @ decimal (status response)
                                  @ js '' - '' @ statusText response)))
         else
           (case body response of
              None \<Rightarrow> ([], Thrown (JsError (js ''No body included in POST response object'')))
            | Some reader \<Rightarrow>
                (case read_loop nt \<lparr>content = [], role = [], decodedData = []\<rparr> reader of
                   (ev, Returned st) \<Rightarrow>
                     (ev @ [OnCloseStream beforeTimestamp],
                      Returned \<lparr>content = content st, role = role st\<rparr>)
                 | (ev, Thrown e) \<Rightarrow> (ev, Thrown e)
                 | (ev, Pending) \<Rightarrow> (ev, Pending))))"

section \<open>What a run shows\<close>

text \<open>
  The pieces that \<^verbatim>\<open>split(/(\n){2}/)\<close> cuts a text into, with the captured newline after
  each separator, written as a recursion on the text (\<open>js_split_frames\<close> below proves the
  equality). All pieces but the last are the lines the \<^verbatim>\<open>for\<close> loop visits.
\<close>

fun pieces :: "jsstring \<Rightarrow> jsstring list" where
  "pieces [] = [[]]"
| "pieces [c] = [[c]]"
| "pieces (c # d # s) =
    (if c = 0xA \<and> d = 0xA then [] # [0xA] # pieces s
     else (case pieces (d # s) of [] \<Rightarrow> [[c]] | p # ps \<Rightarrow> (c # p) # ps))"

definition prepend :: "jsstring \<Rightarrow> jsstring list \<Rightarrow> jsstring list" where
  "prepend a ps = (case ps of [] \<Rightarrow> [a] | p # ps' \<Rightarrow> (a @ p) # ps')"

text \<open>
  The calls of the two callbacks in a list of effects, a byte source that yields the given
  chunks, the read that reports exhaustion, the local variables at the start of the loop,
  and the three things a caller can observe of a run: the \<^verbatim>\<open>onIncomingChunk\<close> calls, the
  \<^verbatim>\<open>onCloseStream\<close> calls and how the call ends.
\<close>

fun chunk_calls :: "event list \<Rightarrow> (jsstring \<times> jsval) list" where
  "chunk_calls [] = []"
| "chunk_calls (OnIncomingChunk c r # ev) = (c, r) # chunk_calls ev"
| "chunk_calls (Read # ev) = chunk_calls ev"
| "chunk_calls (OnCloseStream t # ev) = chunk_calls ev"

fun close_calls :: "event list \<Rightarrow> nat list" where
  "close_calls [] = []"
| "close_calls (OnCloseStream t # ev) = t # close_calls ev"
| "close_calls (Read # ev) = close_calls ev"
| "close_calls (OnIncomingChunk c r # ev) = close_calls ev"

definition complete_frames :: "jsstring \<Rightarrow> jsstring option list" where
  "complete_frames text = map Some (butlast (pieces text))"

definition chunks :: "byte list list \<Rightarrow> read_result list" where
  "chunks cs = map (\<lambda>c. Resolves (Some c) False) cs"

definition exhausted :: "read_result list" where
  "exhausted = [Resolves None True]"

definition initial :: locals where
  "initial = \<lparr>content = [], role = [], decodedData = []\<rparr>"

definition observed :: "event list \<times> 'a \<Rightarrow> (jsstring \<times> jsval) list \<times> nat list \<times> 'a" where
  "observed x = (chunk_calls (fst x), close_calls (fst x), snd x)"

section \<open>The regular expressions of the decoder\<close>

lemma pieces_nonempty: "pieces s \<noteq> []"
  by (induction s rule: pieces.induct) (auto split: list.splits)

lemma rmatch_space:
  "rmatch Space (e, s, g) = (case s of [] \<Rightarrow> [] | x # xs \<Rightarrow> if is_ws x then [(Suc e, xs, g)] else [])"
  by simp

lemma star_space:
  "length s \<le> n \<Longrightarrow>
    \<exists>ys. star_loop (\<lambda>y. rmatch Space (clear_captures Space y)) n (e, s, g)
      = (e + length (takeWhile is_ws s), dropWhile is_ws s, g) # ys"
proof (induction n arbitrary: e s)
  case 0
  then show ?case by simp
next
  case (Suc n)
  show ?case
  proof (cases s)
    case Nil
    then show ?thesis by (simp add: clear_captures_def)
  next
    case (Cons c cs)
    show ?thesis
    proof (cases "is_ws c")
      case False
      with Cons show ?thesis by (simp add: clear_captures_def)
    next
      case True
      from Suc.prems Cons have "length cs \<le> n" by simp
      from Suc.IH [OF this, of "Suc e"] obtain ys
        where "star_loop (\<lambda>y. rmatch Space (clear_captures Space y)) n (Suc e, cs, g)
          = (Suc e + length (takeWhile is_ws cs), dropWhile is_ws cs, g) # ys"
        by blast
      with Cons True show ?thesis by (simp add: clear_captures_def)
    qed
  qed
qed

lemma rmatch_star_space:
  "\<exists>ys. rmatch (Star Space) (e, s, g) = (e + length (takeWhile is_ws s), dropWhile is_ws s, g) # ys"
  using star_space [of s "length s" e g] by simp

lemma rmatch_chars:
  "rmatch (chars cs r) (e, s, g) =
    (if take (length cs) s = cs then rmatch r (e + length cs, drop (length cs) s, g) else [])"
proof (induction cs arbitrary: e s)
  case Nil
  then show ?case by simp
next
  case (Cons c cs)
  show ?case
  proof (cases s)
    case Nil
    then show ?thesis by simp
  next
    case (Cons x xs)
    with Cons.IH [of "Suc e" xs] show ?thesis by auto
  qed
qed

lemma search_none:
  assumes "\<And>i t. 0 < i \<Longrightarrow> rmatch r (i, t, None) = []"
  shows "0 < i \<Longrightarrow> search r i s = None"
  using assms by (induction s arbitrary: i) (auto simp: search.simps split: list.splits)

lemma search_anchored:
  assumes "\<And>i t. 0 < i \<Longrightarrow> rmatch r (i, t, None) = []"
  shows "search r 0 s = (case rmatch r (0, s, None) of [] \<Rightarrow> None | y # ys \<Rightarrow> Some (0, y))"
  using search_none [OF assms, of "Suc 0"] by (cases s) (auto simp: search.simps split: list.splits)

lemma rmatch_data_marker:
  "rmatch data_marker (i, t, None) =
     (if i = 0 then rmatch (chars (js ''data:'') (Star Space)) (0, t, None) else [])"
  by (cases t) (auto simp: data_marker_def clear_captures_def)

lemma replace_data_marker:
  "js_replace data_marker s [] =
     (if take 5 s = js ''data:'' then dropWhile is_ws (drop 5 s) else s)"
proof -
  have a: "\<And>i t. 0 < i \<Longrightarrow> rmatch data_marker (i, t, None) = []"
    by (simp add: rmatch_data_marker)
  have l: "length (js ''data:'') = 5"
    by (simp add: js_def)
  show ?thesis
  proof (cases "take 5 s = js ''data:''")
    case False
    then have "rmatch data_marker (0, s, None) = []"
      by (simp add: rmatch_data_marker rmatch_chars l)
    with False show ?thesis
      by (simp add: js_replace_def search_anchored [OF a])
  next
    case True
    obtain ys where "rmatch (Star Space) (5, drop 5 s, None)
        = (5 + length (takeWhile is_ws (drop 5 s)), dropWhile is_ws (drop 5 s), None) # ys"
      using rmatch_star_space by blast
    with True have "rmatch data_marker (0, s, None)
        = (5 + length (takeWhile is_ws (drop 5 s)), dropWhile is_ws (drop 5 s), None) # ys"
      by (simp add: rmatch_data_marker rmatch_chars l)
    moreover have "drop (5 + length (takeWhile is_ws (drop 5 s))) s = dropWhile is_ws (drop 5 s)"
      by (metis add.commute drop_drop dropWhile_eq_drop)
    ultimately show ?thesis using True
      by (simp add: js_replace_def search_anchored [OF a])
  qed
qed

lemma rmatch_leading_backtick:
  "rmatch leading_backtick (i, t, None) =
     (if i = 0 then rmatch (Seq (Chr 0x60) (Star Space)) (0, t, None) else [])"
  by (simp add: leading_backtick_def)

lemma replace_leading_backtick:
  "js_replace leading_backtick s [0x60] =
     (case s of [] \<Rightarrow> [] | c # t \<Rightarrow> if c = 0x60 then 0x60 # dropWhile is_ws t else s)"
proof -
  have a: "\<And>i t. 0 < i \<Longrightarrow> rmatch leading_backtick (i, t, None) = []"
    by (simp add: rmatch_leading_backtick)
  show ?thesis
  proof (cases s)
    case Nil
    then show ?thesis
      by (simp add: js_replace_def search_anchored [OF a] rmatch_leading_backtick)
  next
    case (Cons c t)
    show ?thesis
    proof (cases "c = 0x60")
      case False
      with Cons show ?thesis
        by (simp add: js_replace_def search_anchored [OF a] rmatch_leading_backtick)
    next
      case True
      obtain ys where "rmatch (Star Space) (1, t, None)
          = (1 + length (takeWhile is_ws t), dropWhile is_ws t, None) # ys"
        using rmatch_star_space by blast
      with True Cons have "rmatch leading_backtick (0, s, None)
          = (1 + length (takeWhile is_ws t), dropWhile is_ws t, None) # ys"
        by (simp add: rmatch_leading_backtick)
      with True Cons show ?thesis
        by (simp add: js_replace_def search_anchored [OF a] dropWhile_eq_drop)
    qed
  qed
qed

lemma rmatch_frame_boundary:
  "rmatch frame_boundary (q, t, g) =
    (case t of
       a # b # t' \<Rightarrow> if a = 0xA \<and> b = 0xA then [(q + 2, t', Some [0xA])] else []
     | _ \<Rightarrow> [])"
  by (auto simp: frame_boundary_def numeral_2_eq_2 clear_captures_def split: list.splits)

section \<open>Splitting into frames\<close>

lemma pieces_cons:
  "pieces (c # d # s) =
    (if c = 0xA \<and> d = 0xA then [] # [0xA] # pieces s else prepend [c] (pieces (d # s)))"
  by (simp add: prepend_def split: list.splits)

lemma prepend_nil: "ps \<noteq> [] \<Longrightarrow> prepend [] ps = ps"
  by (cases ps) (simp_all add: prepend_def)

lemma prepend_prepend: "ps \<noteq> [] \<Longrightarrow> prepend a (prepend b ps) = prepend (a @ b) ps"
  by (cases ps) (simp_all add: prepend_def)

lemma take_drop_step:
  assumes "p \<le> q" "q < length S"
  shows "take (Suc q - p) (drop p S) = take (q - p) (drop p S) @ [S ! q]"
proof -
  from assms have "Suc q - p = Suc (q - p)" "q - p < length (drop p S)"
    by simp_all
  then have "take (Suc q - p) (drop p S) = take (q - p) (drop p S) @ [drop p S ! (q - p)]"
    by (simp add: take_Suc_conv_app_nth)
  with assms show ?thesis by simp
qed

lemma has_group_frame_boundary: "has_group frame_boundary"
  by (simp add: frame_boundary_def)

lemma split_loop_frames:
  "p \<le> q \<Longrightarrow> q \<le> length S \<Longrightarrow>
    split_loop frame_boundary S p q =
      map Some (prepend (take (q - p) (drop p S)) (pieces (drop q S)))"
proof (induction "length S - q" arbitrary: p q rule: less_induct)
  case less
  show ?case
  proof (cases "q < length S")
    case False
    with less.prems have q: "q = length S" by simp
    then have "split_loop frame_boundary S p q = [Some (drop p S)]"
      by (subst split_loop.simps) simp
    with q show ?thesis by (simp add: prepend_def)
  next
    case True
    then obtain c t where dq: "drop q S = c # t" and c: "c = S ! q"
      by (metis Cons_nth_drop_Suc)
    from True dq have dq1: "drop (Suc q) S = t"
      by (metis drop_Suc list.sel(3) tl_drop)
    have step: "take (Suc q - p) (drop p S) = take (q - p) (drop p S) @ [c]"
      using take_drop_step [OF less.prems(1) True] c by simp
    have IH1: "split_loop frame_boundary S p (Suc q) =
        map Some (prepend (take (q - p) (drop p S) @ [c]) (pieces t))"
      using less.hyps [of "Suc q" p] less.prems True dq1 step by simp
    show ?thesis
    proof (cases t)
      case Nil
      with dq True have "split_loop frame_boundary S p q = split_loop frame_boundary S p (Suc q)"
        by (subst split_loop.simps) (simp add: rmatch_frame_boundary)
      with IH1 Nil dq show ?thesis by (simp add: prepend_def)
    next
      case (Cons d t')
      show ?thesis
      proof (cases "c = 0xA \<and> d = 0xA")
        case False
        with dq Cons True
        have "split_loop frame_boundary S p q = split_loop frame_boundary S p (Suc q)"
          by (subst split_loop.simps) (auto simp: rmatch_frame_boundary)
        moreover have "pieces (c # d # t') = prepend [c] (pieces (d # t'))"
          using False by (auto simp: prepend_def split: list.splits)
        ultimately show ?thesis
          using IH1 Cons dq by (simp add: prepend_prepend pieces_nonempty)
      next
        case m: True
        from True dq Cons have len: "q + 2 \<le> length S"
          by (metis Suc_leI add_2_eq_Suc' drop_eq_Nil2 dq1 list.distinct(1) not_less)
        have d2: "drop (q + 2) S = t'"
          using dq1 Cons by (metis add_2_eq_Suc' drop_Suc list.sel(3) tl_drop)
        have "split_loop frame_boundary S p q =
            Some (take (q - p) (drop p S)) # Some [0xA] # split_loop frame_boundary S (q + 2) (q + 2)"
          using True dq Cons m len less.prems(1)
          by (subst split_loop.simps) (simp add: rmatch_frame_boundary has_group_frame_boundary min_def)
        moreover have "split_loop frame_boundary S (q + 2) (q + 2) = map Some (pieces t')"
          using less.hyps [of "q + 2" "q + 2"] True len d2
          by (simp add: prepend_nil pieces_nonempty)
        ultimately show ?thesis
          using dq Cons m by (simp add: prepend_def)
      qed
    qed
  qed
qed

lemma js_split_frames: "js_split frame_boundary S = map Some (pieces S)"
proof (cases "S = []")
  case True
  then show ?thesis by (simp add: js_split_def rmatch_frame_boundary)
next
  case False
  then show ?thesis
    using split_loop_frames [of 0 0 S] by (simp add: js_split_def prepend_nil pieces_nonempty)
qed

lemma pieces_single: "pieces s = [p] \<Longrightarrow> p = s"
proof (induction s arbitrary: p rule: pieces.induct)
  case 1
  then show ?case by simp
next
  case (2 c)
  then show ?case by simp
next
  case (3 c d s)
  then show ?case
    using pieces_nonempty [of "d # s"] by (auto split: if_splits list.splits)
qed

lemma butlast_prepend: "ps \<noteq> [] \<Longrightarrow> tl ps \<noteq> [] \<Longrightarrow> butlast (prepend a ps) = prepend a (butlast ps)"
  by (cases ps) (auto simp: prepend_def split: list.splits)

lemma last_prepend: "tl ps \<noteq> [] \<Longrightarrow> last (prepend a ps) = last ps"
  by (cases ps) (auto simp: prepend_def)

lemma pieces_append:
  "pieces (s @ t) = butlast (pieces s) @ pieces (last (pieces s) @ t)"
proof (induction s rule: pieces.induct)
  case 1
  then show ?case by simp
next
  case (2 c)
  then show ?case by simp
next
  case (3 c d s)
  show ?case
  proof (cases "c = 0xA \<and> d = 0xA")
    case True
    with 3 show ?thesis by (simp add: pieces_nonempty)
  next
    case False
    with 3 have IH: "pieces (d # s @ t) = butlast (pieces (d # s)) @ pieces (last (pieces (d # s)) @ t)"
      by simp
    obtain p ps where P: "pieces (d # s) = p # ps"
      using pieces_nonempty [of "d # s"] by (cases "pieces (d # s)") auto
    have L: "pieces (c # d # s @ t) = prepend [c] (pieces (d # s @ t))"
      using False by (auto simp: prepend_def split: list.splits)
    have R: "pieces (c # d # s) = (c # p) # ps"
      using False P by simp
    show ?thesis
    proof (cases ps)
      case Nil
      with P have "p = d # s" using pieces_single by blast
      with Nil P R IH L False show ?thesis
        by (auto simp: prepend_def split: list.splits)
    next
      case (Cons x xs)
      with P R IH L show ?thesis by (simp add: prepend_def)
    qed
  qed
qed

section \<open>The read loop as one pass over the text\<close>

lemma chunk_calls_append: "chunk_calls (a @ b) = chunk_calls a @ chunk_calls b"
  by (induction a rule: chunk_calls.induct) auto

lemma close_calls_append: "close_calls (a @ b) = close_calls a @ close_calls b"
  by (induction a rule: close_calls.induct) auto

lemma process_line_events:
  "process_line nt st l = (ev, r) \<Longrightarrow> close_calls ev = [] \<and> Read \<notin> set ev"
  by (auto simp: process_line_def Let_def split: option.splits sum.splits if_splits)

lemma for_lines_events:
  "for_lines nt st ls = (ev, r) \<Longrightarrow> close_calls ev = [] \<and> Read \<notin> set ev"
proof (induction ls arbitrary: st ev r)
  case Nil
  then show ?case by simp
next
  case (Cons l ls)
  obtain ev1 r1 where p: "process_line nt st l = (ev1, r1)"
    by (cases "process_line nt st l")
  show ?case
  proof (cases r1)
    case (Inl e)
    with Cons.prems p process_line_events [OF p] show ?thesis by simp
  next
    case (Inr st')
    obtain ev2 r2 where f: "for_lines nt st' ls = (ev2, r2)"
      by (cases "for_lines nt st' ls")
    with Cons.prems p Inr have "ev = ev1 @ ev2" by simp
    with Cons.IH [OF f] process_line_events [OF p] show ?thesis
      by (simp add: close_calls_append)
  qed
qed

lemma for_lines_append:
  "for_lines nt st (xs @ ys) =
    (case for_lines nt st xs of
       (ev, Inl e) \<Rightarrow> (ev, Inl e)
     | (ev, Inr st') \<Rightarrow> (case for_lines nt st' ys of (ev', r) \<Rightarrow> (ev @ ev', r)))"
  by (induction xs arbitrary: st) (auto split: prod.splits sum.splits)

lemma process_line_decodedData:
  "process_line nt (st\<lparr>decodedData := d\<rparr>) l =
    (case process_line nt st l of
       (ev, Inl e) \<Rightarrow> (ev, Inl e)
     | (ev, Inr st') \<Rightarrow> (ev, Inr (st'\<lparr>decodedData := d\<rparr>)))"
  by (auto simp: process_line_def Let_def split: option.splits sum.splits)

lemma for_lines_decodedData:
  "for_lines nt (st\<lparr>decodedData := d\<rparr>) ls =
    (case for_lines nt st ls of
       (ev, Inl e) \<Rightarrow> (ev, Inl e)
     | (ev, Inr st') \<Rightarrow> (ev, Inr (st'\<lparr>decodedData := d\<rparr>)))"
proof (induction ls arbitrary: st)
  case Nil
  then show ?case by simp
next
  case (Cons l ls)
  show ?case
    by (simp add: process_line_decodedData Cons.IH split: prod.splits sum.splits)
qed

lemma last_line_pieces: "last_line (map Some (pieces s)) = last (pieces s)"
  using pieces_nonempty [of s]
  by (cases "pieces s") (auto simp: last_line_def last_map split: list.splits)

lemma take_complete_frames:
  "take (length (map Some (pieces x)) - 1) (map Some (pieces x)) = complete_frames x"
  by (simp add: complete_frames_def butlast_conv_take take_map)

lemma on_value_frames:
  "on_value nt st v =
    (case for_lines nt st (complete_frames (decodedData st @ TextDecoder_decode v)) of
       (ev, Inl e) \<Rightarrow> (ev, Inl e)
     | (ev, Inr st') \<Rightarrow>
         (ev, Inr (st'\<lparr>decodedData := last (pieces (decodedData st @ TextDecoder_decode v))\<rparr>)))"
proof -
  let ?x = "decodedData st @ TextDecoder_decode v"
  obtain ev r where f: "for_lines nt st (complete_frames ?x) = (ev, r)"
    by (cases "for_lines nt st (complete_frames ?x)")
  have "on_value nt st v =
      (case for_lines nt (st\<lparr>decodedData := ?x\<rparr>) (complete_frames ?x) of
         (ev, Inl e) \<Rightarrow> (ev, Inl e)
       | (ev, Inr st') \<Rightarrow> (ev, Inr (st'\<lparr>decodedData := last (pieces ?x)\<rparr>)))"
    unfolding on_value_def Let_def js_split_frames take_complete_frames last_line_pieces ..
  then show ?thesis
    using f by (cases r) (simp_all add: for_lines_decodedData)
qed

lemma pieces_last: "pieces (last (pieces s)) = [last (pieces s)]"
proof (induction s rule: pieces.induct)
  case 1
  then show ?case by simp
next
  case (2 c)
  then show ?case by simp
next
  case (3 c d s)
  show ?case
  proof (cases "c = 0xA \<and> d = 0xA")
    case True
    with 3 show ?thesis by (simp add: pieces_nonempty)
  next
    case False
    obtain p ps where P: "pieces (d # s) = p # ps"
      using pieces_nonempty [of "d # s"] by (cases "pieces (d # s)") auto
    show ?thesis
    proof (cases ps)
      case Nil
      with P have "p = d # s" using pieces_single by blast
      with Nil P False show ?thesis by auto
    next
      case (Cons x xs)
      with P False 3 show ?thesis by auto
    qed
  qed
qed

lemma complete_frames_append:
  "complete_frames (s @ t) = complete_frames s @ complete_frames (last (pieces s) @ t)"
  by (simp add: complete_frames_def pieces_append [of s t] butlast_append pieces_nonempty)

lemma last_pieces_append: "last (pieces (s @ t)) = last (pieces (last (pieces s) @ t))"
  by (simp add: pieces_append [of s t] pieces_nonempty)

lemma chunks_simps:
  "chunks [] = []" "chunks (c # cs) = Resolves (Some c) False # chunks cs"
  by (simp_all add: chunks_def)

lemma read_loop_chunks:
  "pieces (decodedData st) = [decodedData st] \<Longrightarrow>
   observed (read_loop nt st (chunks cs @ rest)) =
     (case for_lines nt st (complete_frames (decodedData st @ concat (map TextDecoder_decode cs))) of
        (ev1, Inl e) \<Rightarrow> (chunk_calls ev1, [], Thrown e)
      | (ev1, Inr st1) \<Rightarrow>
          (case read_loop nt
                  (st1\<lparr>decodedData :=
                     last (pieces (decodedData st @ concat (map TextDecoder_decode cs)))\<rparr>) rest of
             (ev2, out2) \<Rightarrow> (chunk_calls ev1 @ chunk_calls ev2, close_calls ev2, out2)))"
proof (induction cs arbitrary: st)
  case Nil
  then show ?case
    by (simp add: chunks_simps complete_frames_def observed_def split: prod.splits)
next
  case (Cons c cs)
  let ?d = "TextDecoder_decode c"
  let ?D = "concat (map TextDecoder_decode cs)"
  let ?x = "decodedData st @ ?d"
  let ?b = "last (pieces ?x)"
  have tx: "decodedData st @ concat (map TextDecoder_decode (c # cs)) = ?x @ ?D"
    by simp
  have cf: "complete_frames (?x @ ?D) = complete_frames ?x @ complete_frames (?b @ ?D)"
    by (rule complete_frames_append)
  obtain ev0 r0 where A: "for_lines nt st (complete_frames ?x) = (ev0, r0)"
    by (cases "for_lines nt st (complete_frames ?x)")
  have ev0: "close_calls ev0 = []"
    using for_lines_events [OF A] by simp
  show ?case
  proof (cases r0)
    case (Inl e)
    with A have "on_value nt st c = (ev0, Inl e)"
      by (simp add: on_value_frames)
    then have "read_loop nt st (chunks (c # cs) @ rest) = (Read # ev0, Thrown e)"
      by (simp add: chunks_simps)
    moreover have "for_lines nt st (complete_frames (?x @ ?D)) = (ev0, Inl e)"
      unfolding cf for_lines_append using A Inl by simp
    ultimately show ?thesis
      unfolding tx using ev0 by (simp add: observed_def)
  next
    case (Inr s1)
    let ?s1 = "s1\<lparr>decodedData := ?b\<rparr>"
    from A Inr have ov: "on_value nt st c = (ev0, Inr ?s1)"
      by (simp add: on_value_frames)
    have inv: "pieces (decodedData ?s1) = [decodedData ?s1]"
      by (simp add: pieces_last)
    have dd: "decodedData ?s1 = ?b"
      by simp
    obtain ev' r' where R: "read_loop nt ?s1 (chunks cs @ rest) = (ev', r')"
      by (cases "read_loop nt ?s1 (chunks cs @ rest)")
    from ov R have L: "read_loop nt st (chunks (c # cs) @ rest) = (Read # ev0 @ ev', r')"
      by (simp add: chunks_simps)
    obtain ev1 r1 where B: "for_lines nt s1 (complete_frames (?b @ ?D)) = (ev1, r1)"
      by (cases "for_lines nt s1 (complete_frames (?b @ ?D))")
    have IH: "observed (ev', r') =
        (case for_lines nt ?s1 (complete_frames (?b @ ?D)) of
           (ev1, Inl e) \<Rightarrow> (chunk_calls ev1, [], Thrown e)
         | (ev1, Inr st1) \<Rightarrow>
             (case read_loop nt (st1\<lparr>decodedData := last (pieces (?b @ ?D))\<rparr>) rest of
                (ev2, out2) \<Rightarrow> (chunk_calls ev1 @ chunk_calls ev2, close_calls ev2, out2)))"
      using Cons.IH [OF inv] R unfolding dd by simp
    have T: "for_lines nt st (complete_frames (?x @ ?D)) =
        (case r1 of Inl e \<Rightarrow> (ev0 @ ev1, Inl e) | Inr s2 \<Rightarrow> (ev0 @ ev1, Inr s2))"
      unfolding cf for_lines_append using A Inr B by (simp split: sum.splits)
    have lp: "last (pieces (?x @ ?D)) = last (pieces (?b @ ?D))"
      by (rule last_pieces_append)
    show ?thesis
    proof (cases r1)
      case e: (Inl e)
      with IH B have "observed (ev', r') = (chunk_calls ev1, [], Thrown e)"
        by (simp add: for_lines_decodedData)
      with L T e ev0 show ?thesis
        unfolding tx by (simp add: observed_def chunk_calls_append close_calls_append)
    next
      case s2: (Inr s2)
      obtain ev2 out2
        where F: "read_loop nt (s2\<lparr>decodedData := last (pieces (?b @ ?D))\<rparr>) rest = (ev2, out2)"
        by (cases "read_loop nt (s2\<lparr>decodedData := last (pieces (?b @ ?D))\<rparr>) rest")
      with IH B s2
      have "observed (ev', r') = (chunk_calls ev1 @ chunk_calls ev2, close_calls ev2, out2)"
        by (simp add: for_lines_decodedData)
      with L T s2 ev0 F lp show ?thesis
        unfolding tx by (simp add: observed_def chunk_calls_append close_calls_append)
    qed
  qed
qed

lemma read_loop_no_close: "read_loop nt st rs = (ev, out) \<Longrightarrow> close_calls ev = []"
proof (induction rs arbitrary: st ev out)
  case Nil
  then show ?case by auto
next
  case (Cons x rs)
  show ?case
  proof (cases x)
    case (Rejects reason)
    with Cons.prems show ?thesis by auto
  next
    case (Resolves v d)
    obtain ev0 r0 where O: "(case v of None \<Rightarrow> ([], Inr st) | Some b \<Rightarrow> on_value nt st b) = (ev0, r0)"
      by (cases "(case v of None \<Rightarrow> ([], Inr st) | Some b \<Rightarrow> on_value nt st b)")
    have ev0: "close_calls ev0 = []"
    proof (cases v)
      case None
      with O show ?thesis by simp
    next
      case (Some b)
      with O have "on_value nt st b = (ev0, r0)" by simp
      then obtain r1 where "for_lines nt st (complete_frames (decodedData st @ TextDecoder_decode b)) = (ev0, r1)"
        by (auto simp: on_value_frames split: prod.splits sum.splits)
      from for_lines_events [OF this] show ?thesis by simp
    qed
    show ?thesis
    proof (cases r0)
      case (Inl e)
      with Cons.prems Resolves O ev0 show ?thesis by auto
    next
      case (Inr st')
      show ?thesis
      proof (cases d)
        case True
        with Cons.prems Resolves O ev0 Inr show ?thesis by auto
      next
        case False
        obtain ev' r' where R: "read_loop nt st' rs = (ev', r')"
          by (cases "read_loop nt st' rs")
        with Cons.prems Resolves O Inr False have "ev = Read # ev0 @ ev'" by simp
        with Cons.IH [OF R] ev0 show ?thesis by (simp add: close_calls_append)
      qed
    qed
  qed
qed

lemma handler_read_loop:
  assumes "ok r" "body r = Some reads"
  shows "observed (openAiStreamingDataHandler nt t (Fulfilled r)) =
     (case read_loop nt initial reads of
        (ev, Returned st) \<Rightarrow> (chunk_calls ev, [t], Returned \<lparr>content = content st, role = role st\<rparr>)
      | (ev, Thrown e) \<Rightarrow> (chunk_calls ev, [], Thrown e)
      | (ev, Pending) \<Rightarrow> (chunk_calls ev, [], Pending))"
proof -
  obtain ev out where R: "read_loop nt initial reads = (ev, out)"
    by (cases "read_loop nt initial reads")
  from read_loop_no_close [OF R] have "close_calls ev = []" .
  with assms R show ?thesis
    by (cases out)
      (simp_all add: openAiStreamingDataHandler_def initial_def [symmetric] observed_def
        chunk_calls_append close_calls_append)
qed

lemma initial_inv: "pieces (decodedData initial) = [decodedData initial]"
  by (simp add: initial_def)

lemma d0: "decodedData initial = []"
  by (simp add: initial_def)

lemma handler_chunks:
  assumes "ok r" "body r = Some (chunks cs @ rest)"
  shows "observed (openAiStreamingDataHandler nt t (Fulfilled r)) =
     (case for_lines nt initial (complete_frames (concat (map TextDecoder_decode cs))) of
        (ev1, Inl e) \<Rightarrow> (chunk_calls ev1, [], Thrown e)
      | (ev1, Inr st1) \<Rightarrow>
          (case read_loop nt
                  (st1\<lparr>decodedData := last (pieces (concat (map TextDecoder_decode cs)))\<rparr>) rest of
             (ev2, Returned st) \<Rightarrow>
               (chunk_calls ev1 @ chunk_calls ev2, [t],
                Returned \<lparr>content = content st, role = role st\<rparr>)
           | (ev2, Thrown e) \<Rightarrow> (chunk_calls ev1 @ chunk_calls ev2, [], Thrown e)
           | (ev2, Pending) \<Rightarrow> (chunk_calls ev1 @ chunk_calls ev2, [], Pending)))"
proof -
  let ?T = "concat (map TextDecoder_decode cs)"
  obtain ev out where R: "read_loop nt initial (chunks cs @ rest) = (ev, out)"
    by (cases "read_loop nt initial (chunks cs @ rest)")
  have S: "observed (ev, out) =
     (case for_lines nt initial (complete_frames ?T) of
        (ev1, Inl e) \<Rightarrow> (chunk_calls ev1, [], Thrown e)
      | (ev1, Inr st1) \<Rightarrow>
          (case read_loop nt (st1\<lparr>decodedData := last (pieces ?T)\<rparr>) rest of
             (ev2, out2) \<Rightarrow> (chunk_calls ev1 @ chunk_calls ev2, close_calls ev2, out2)))"
    using read_loop_chunks [OF initial_inv, of nt cs rest, unfolded d0 append_Nil] R by simp
  obtain ev1 r1 where F: "for_lines nt initial (complete_frames ?T) = (ev1, r1)"
    by (cases "for_lines nt initial (complete_frames ?T)")
  have H: "observed (openAiStreamingDataHandler nt t (Fulfilled r)) =
     (case out of
        Returned st \<Rightarrow> (chunk_calls ev, [t], Returned \<lparr>content = content st, role = role st\<rparr>)
      | Thrown e \<Rightarrow> (chunk_calls ev, [], Thrown e)
      | Pending \<Rightarrow> (chunk_calls ev, [], Pending))"
    using handler_read_loop [OF assms, of nt t] R by (simp split: outcome.splits)
  show ?thesis
  proof (cases r1)
    case (Inl e)
    with S F H show ?thesis by (simp add: observed_def)
  next
    case (Inr st1)
    obtain ev2 out2
      where L: "read_loop nt (st1\<lparr>decodedData := last (pieces ?T)\<rparr>) rest = (ev2, out2)"
      by (cases "read_loop nt (st1\<lparr>decodedData := last (pieces ?T)\<rparr>) rest")
    with S F Inr have "chunk_calls ev = chunk_calls ev1 @ chunk_calls ev2" "out = out2"
      by (simp_all add: observed_def)
    with H F Inr L show ?thesis by (cases out2) simp_all
  qed
qed

lemma handler_stream:
  assumes "ok r" "body r = Some (chunks cs @ exhausted)"
  shows "observed (openAiStreamingDataHandler nt t (Fulfilled r)) =
     (case for_lines nt initial (complete_frames (concat (map TextDecoder_decode cs))) of
        (ev1, Inl e) \<Rightarrow> (chunk_calls ev1, [], Thrown e)
      | (ev1, Inr st1) \<Rightarrow>
          (chunk_calls ev1, [t], Returned \<lparr>content = content st1, role = role st1\<rparr>))"
  using handler_chunks [OF assms, of nt t]
  by (simp add: exhausted_def split: prod.splits sum.splits)

section \<open>The transport checks\<close>

lemma decimal_value_append:
  "decimal_value (xs @ [c]) = 10 * decimal_value xs + (uint c - 0x30)"
  by (simp add: decimal_value_def)

lemma decimal_digit: "d < 10 \<Longrightarrow> uint (of_nat (0x30 + d) :: 16 word) - 0x30 = int d"
proof -
  assume "d < 10"
  then have "unat (of_nat (0x30 + d) :: 16 word) = 0x30 + d"
    unfolding unat_of_nat by simp
  then have "uint (of_nat (0x30 + d) :: 16 word) = int (0x30 + d)"
    by (metis uint_nat)
  then show ?thesis by simp
qed

lemma decimal_value_decimal: "decimal_value (decimal n) = int n"
proof (induction n rule: decimal.induct)
  case (1 n)
  show ?case
  proof (cases "n < 10")
    case True
    then show ?thesis
      using decimal_digit [of n] by (simp add: decimal_value_def)
  next
    case False
    then have "decimal n = decimal (n div 10) @ [of_nat (0x30 + n mod 10)]"
      by (subst decimal.simps) simp
    then show ?thesis
      using 1 False decimal_digit [of "n mod 10"]
      by (simp add: decimal_value_append zmod_int zdiv_int del: decimal.simps)
  qed
qed

text \<open>
  C6. A response whose status is outside 200..299 makes the handler throw, before any
  read and any callback, an error whose message holds the status code in decimal and the
  status text. A response with a status in that range and no body makes it throw the
  ``no body'' error, again before any read.
\<close>

theorem not_ok_or_no_body_fails_before_reading:
  "(status r < 200 \<or> 299 < status r \<longrightarrow>
      openAiStreamingDataHandler nt t (Fulfilled r) =
        ([], Thrown (JsError (js ''Network response was not ok: '' @ decimal (status r)
                               @ js '' - '' @ statusText r)))
      \<and> decimal_value (decimal (status r)) = int (status r))
   \<and> (200 \<le> status r \<and> status r \<le> 299 \<and> body r = None \<longrightarrow>
      openAiStreamingDataHandler nt t (Fulfilled r) =
        ([], Thrown (JsError (js ''No body included in POST response object''))))"
  by (auto simp: openAiStreamingDataHandler_def ok_def decimal_value_decimal
      simp del: decimal.simps)

theorem not_ok_or_no_body_witness:
  "openAiStreamingDataHandler (\<lambda>l. l) 0
      (Fulfilled \<lparr>status = 500, statusText = js ''Internal Server Error'', body = Some []\<rparr>) =
     ([], Thrown (JsError (js ''Network response was not ok: 500 - Internal Server Error'')))
   \<and> openAiStreamingDataHandler (\<lambda>l. l) 0
      (Fulfilled \<lparr>status = 200, statusText = js ''OK'', body = None\<rparr>) =
     ([], Thrown (JsError (js ''No body included in POST response object'')))"
proof -
  have d: "decimal 500 = js ''500''"
    by (simp add: js_def)
  show ?thesis
    using not_ok_or_no_body_fails_before_reading
      [of "\<lparr>status = 500, statusText = js ''Internal Server Error'', body = Some []\<rparr>" "\<lambda>l. l" 0]
      not_ok_or_no_body_fails_before_reading
      [of "\<lparr>status = 200, statusText = js ''OK'', body = None\<rparr>" "\<lambda>l. l" 0]
    by (simp add: d js_def del: decimal.simps)
qed

end
